theory Spec2Isabelle
  imports Complex_Main "HOL-Library.Word"
begin

section \<open>The S3 consistency harness (s3consistency.py)\<close>

text \<open>
  The script drives an S3 client (boto3) from several threads. The client and
  \<^verbatim>\<open>uuid.uuid4\<close> are the program's only effects that matter here, so a
  function of the script is embedded as a finite tree of requests: each node is one
  call the code makes, and its continuation receives what the call returned or raised.
  A tree is then run against a machine that supplies the gateway and the key source,
  either alone or interleaved with the trees of the other threads.

  Left out: the \<^verbatim>\<open>logger.info\<close> lines other than the result row of
  \<^verbatim>\<open>run_test\<close>, the local \<^verbatim>\<open>total\<close> counter that only feeds them,
  and the environment variables written by \<^verbatim>\<open>config.load_s3_credentials\<close>.
\<close>

subsection \<open>Data\<close>

type_synonym key = string

type_synonym body = "8 word list"

text \<open>
  Exceptions. \<open>NoSuchKey\<close> is \<^verbatim>\<open>client.exceptions.NoSuchKey\<close>, the one
  exception the probes catch; \<open>TransientError\<close> and \<open>FatalError\<close> stand for every
  other failure a gateway call can raise; \<open>ZeroDivisionError\<close> is Python's own.
\<close>

datatype exn = NoSuchKey | TransientError | FatalError | ZeroDivisionError

text \<open>One call on the client, with the bucket it named and what came back.\<close>

datatype event =
    Put_call string key body "exn + unit"
  | Get_call string key "exn + body"
  | Delete_call string key "exn + unit"
  | List_call string "exn + key list"

datatype 'a prog =
    Return 'a
  | Raise exn
  | Uuid "key \<Rightarrow> 'a prog"
  | Put string key body "exn + unit \<Rightarrow> 'a prog"
  | Get string key "exn + body \<Rightarrow> 'a prog"
  | Delete string key "exn + unit \<Rightarrow> 'a prog"
  | List_v2 string "exn + key list \<Rightarrow> 'a prog"

text \<open>Sequencing: an exception of the first part skips the second.\<close>

primrec bind :: "'a prog \<Rightarrow> ('a \<Rightarrow> 'b prog) \<Rightarrow> 'b prog" where
  "bind (Return x) f = f x"
| "bind (Raise e) f = Raise e"
| "bind (Uuid c) f = Uuid (\<lambda>k. bind (c k) f)"
| "bind (Put b k d c) f = Put b k d (\<lambda>r. bind (c r) f)"
| "bind (Get b k c) f = Get b k (\<lambda>r. bind (c r) f)"
| "bind (Delete b k c) f = Delete b k (\<lambda>r. bind (c r) f)"
| "bind (List_v2 b c) f = List_v2 b (\<lambda>r. bind (c r) f)"

text \<open>
  The body of a \<^verbatim>\<open>try\<close>: its outcome as a value, for the \<^verbatim>\<open>except\<close> and
  \<^verbatim>\<open>else\<close> branches to look at.
\<close>

primrec attempt :: "'a prog \<Rightarrow> (exn + 'a) prog" where
  "attempt (Return x) = Return (Inr x)"
| "attempt (Raise e) = Return (Inl e)"
| "attempt (Uuid c) = Uuid (\<lambda>k. attempt (c k))"
| "attempt (Put b k d c) = Put b k d (\<lambda>r. attempt (c r))"
| "attempt (Get b k c) = Get b k (\<lambda>r. attempt (c r))"
| "attempt (Delete b k c) = Delete b k (\<lambda>r. attempt (c r))"
| "attempt (List_v2 b c) = List_v2 b (\<lambda>r. attempt (c r))"

text \<open>A call raises what the gateway failed with, and returns its answer otherwise.\<close>

definition raise_or_return :: "exn + 'a \<Rightarrow> 'a prog" where
  "raise_or_return r = (case r of Inl e \<Rightarrow> Raise e | Inr x \<Rightarrow> Return x)"

definition uuid4 :: "key prog" where
  "uuid4 = Uuid Return"

definition put_object :: "string \<Rightarrow> key \<Rightarrow> body \<Rightarrow> unit prog" where
  "put_object bucket key body = Put bucket key body raise_or_return"

definition get_object :: "string \<Rightarrow> key \<Rightarrow> body prog" where
  "get_object bucket key = Get bucket key raise_or_return"

definition delete_object :: "string \<Rightarrow> key \<Rightarrow> unit prog" where
  "delete_object bucket key = Delete bucket key raise_or_return"

definition list_objects_v2 :: "string \<Rightarrow> key list prog" where
  "list_objects_v2 bucket = List_v2 bucket raise_or_return"

text \<open>\<^verbatim>\<open>for _ in range(n)\<close> over the loop's variables \<open>s\<close>.\<close>

primrec for_range :: "nat \<Rightarrow> ('s \<Rightarrow> 's prog) \<Rightarrow> 's \<Rightarrow> 's prog" where
  "for_range 0 step s = Return s"
| "for_range (Suc n) step s = bind (step s) (for_range n step)"

text \<open>\<^verbatim>\<open>for x in xs\<close> with no loop variable.\<close>

primrec for_each :: "'x list \<Rightarrow> ('x \<Rightarrow> unit prog) \<Rightarrow> unit prog" where
  "for_each [] step = Return ()"
| "for_each (x # xs) step = bind (step x) (\<lambda>_. for_each xs step)"

subsection \<open>The probes\<close>

text \<open>
  \<^verbatim>\<open>bytes([0] * chunk_size)\<close> is empty for a negative \<^verbatim>\<open>chunk_size\<close>.
\<close>

definition create_random_file :: "string \<Rightarrow> int \<Rightarrow> key option \<Rightarrow> key prog" where
  "create_random_file bucket chunk_size key0 =
     bind (case key0 of None \<Rightarrow> uuid4 | Some k \<Rightarrow> Return k) (\<lambda>key.
     bind (put_object bucket key (replicate (nat chunk_size) 0)) (\<lambda>_.
     Return key))"

definition list_after_delete_step :: "string \<Rightarrow> int \<Rightarrow> int \<Rightarrow> int prog" where
  "list_after_delete_step bucket chunk_size count =
     bind (create_random_file bucket chunk_size None) (\<lambda>key.
     bind (delete_object bucket key) (\<lambda>_.
     bind (list_objects_v2 bucket) (\<lambda>response.
     Return (if key \<in> set response then count + 1 else count))))"

definition list_after_delete :: "string \<Rightarrow> int \<Rightarrow> int \<Rightarrow> int prog" where
  "list_after_delete bucket iterations chunk_size =
     for_range (nat iterations) (list_after_delete_step bucket chunk_size) 0"

definition list_after_create_step :: "string \<Rightarrow> int \<Rightarrow> int \<Rightarrow> int prog" where
  "list_after_create_step bucket chunk_size count =
     bind (create_random_file bucket chunk_size None) (\<lambda>key.
     bind (list_objects_v2 bucket) (\<lambda>response.
     let count' = (if key \<notin> set response then count + 1 else count) in
     bind (delete_object bucket key) (\<lambda>_.
     Return count')))"

definition list_after_create :: "string \<Rightarrow> int \<Rightarrow> int \<Rightarrow> int prog" where
  "list_after_create bucket iterations chunk_size =
     for_range (nat iterations) (list_after_create_step bucket chunk_size) 0"

definition read_after_overwrite_step :: "string \<Rightarrow> int \<Rightarrow> int \<Rightarrow> int prog" where
  "read_after_overwrite_step bucket chunk_size count =
     bind (create_random_file bucket chunk_size None) (\<lambda>key.
     bind (create_random_file bucket (chunk_size + 1) (Some key)) (\<lambda>_.
     bind (get_object bucket key) (\<lambda>body.
     let count' = (if int (length body) \<noteq> chunk_size + 1 then count + 1 else count) in
     bind (delete_object bucket key) (\<lambda>_.
     Return count'))))"

definition read_after_overwrite :: "string \<Rightarrow> int \<Rightarrow> int \<Rightarrow> int prog" where
  "read_after_overwrite bucket iterations chunk_size =
     for_range (nat iterations) (read_after_overwrite_step bucket chunk_size) 0"

text \<open>
  \<^verbatim>\<open>try: get_object(...)  except NoSuchKey: pass  else: count += 1\<close>;
  any other exception leaves the function.
\<close>

definition read_after_delete_step :: "string \<Rightarrow> int \<Rightarrow> int \<Rightarrow> int prog" where
  "read_after_delete_step bucket chunk_size count =
     bind (create_random_file bucket chunk_size None) (\<lambda>key.
     bind (delete_object bucket key) (\<lambda>_.
     bind (attempt (get_object bucket key)) (\<lambda>r.
     case r of
       Inl e \<Rightarrow> if e = NoSuchKey then Return count else Raise e
     | Inr _ \<Rightarrow> Return (count + 1))))"

definition read_after_delete :: "string \<Rightarrow> int \<Rightarrow> int \<Rightarrow> int prog" where
  "read_after_delete bucket iterations chunk_size =
     for_range (nat iterations) (read_after_delete_step bucket chunk_size) 0"

text \<open>
  \<^verbatim>\<open>try: get_object(...)  except NoSuchKey: count += 1\<close>, then the delete.
\<close>

definition read_after_create_step :: "string \<Rightarrow> int \<Rightarrow> int \<Rightarrow> int prog" where
  "read_after_create_step bucket chunk_size count =
     bind (create_random_file bucket chunk_size None) (\<lambda>key.
     bind (attempt (get_object bucket key)) (\<lambda>r.
     bind (case r of
             Inl e \<Rightarrow> if e = NoSuchKey then Return (count + 1) else Raise e
           | Inr _ \<Rightarrow> Return count) (\<lambda>count'.
     bind (delete_object bucket key) (\<lambda>_.
     Return count'))))"

definition read_after_create :: "string \<Rightarrow> int \<Rightarrow> int \<Rightarrow> int prog" where
  "read_after_create bucket iterations chunk_size =
     for_range (nat iterations) (read_after_create_step bucket chunk_size) 0"

definition clean_up :: "string \<Rightarrow> unit prog" where
  "clean_up bucket =
     bind (list_objects_v2 bucket) (\<lambda>response.
     for_each response (\<lambda>key. delete_object bucket key))"

subsection \<open>Running a function\<close>

text \<open>
  What the script runs on: the four operations of the client over a gateway state
  \<open>'g\<close> that the script never sees, and the keys \<^verbatim>\<open>uuid.uuid4()\<close> hands out,
  one per call. Any sequence of answers is the behaviour of some machine.
\<close>

record 'g machine =
  s3_put :: "string \<Rightarrow> key \<Rightarrow> body \<Rightarrow> 'g \<Rightarrow> (exn + unit) \<times> 'g"
  s3_get :: "string \<Rightarrow> key \<Rightarrow> 'g \<Rightarrow> (exn + body) \<times> 'g"
  s3_delete :: "string \<Rightarrow> key \<Rightarrow> 'g \<Rightarrow> (exn + unit) \<times> 'g"
  s3_list :: "string \<Rightarrow> 'g \<Rightarrow> (exn + key list) \<times> 'g"
  uuid_source :: "nat \<Rightarrow> key"

text \<open>A line of the summary or of the log: name, iterations, errors, error percentage.\<close>

type_synonym row = "string \<times> int \<times> int \<times> real"

datatype out = Line string | Row row

record 'g world =
  gateway :: 'g
  uuid_calls :: nat
  calls :: "event list"
  log_rows :: "row list"
  stdout :: "out list"

text \<open>One call of a function: the next node of its tree.\<close>

fun step :: "'g machine \<Rightarrow> 'a prog \<Rightarrow> 'g world \<Rightarrow> 'a prog \<times> 'g world" where
  "step m (Return x) w = (Return x, w)"
| "step m (Raise e) w = (Raise e, w)"
| "step m (Uuid c) w =
     (c (uuid_source m (uuid_calls w)), w\<lparr>uuid_calls := Suc (uuid_calls w)\<rparr>)"
| "step m (Put b k d c) w =
     (case s3_put m b k d (gateway w) of
        (r, g) \<Rightarrow> (c r, w\<lparr>gateway := g, calls := calls w @ [Put_call b k d r]\<rparr>))"
| "step m (Get b k c) w =
     (case s3_get m b k (gateway w) of
        (r, g) \<Rightarrow> (c r, w\<lparr>gateway := g, calls := calls w @ [Get_call b k r]\<rparr>))"
| "step m (Delete b k c) w =
     (case s3_delete m b k (gateway w) of
        (r, g) \<Rightarrow> (c r, w\<lparr>gateway := g, calls := calls w @ [Delete_call b k r]\<rparr>))"
| "step m (List_v2 b c) w =
     (case s3_list m b (gateway w) of
        (r, g) \<Rightarrow> (c r, w\<lparr>gateway := g, calls := calls w @ [List_call b r]\<rparr>))"

text \<open>A function run to its end with nothing in between: its result or its exception.\<close>

primrec exec :: "'a prog \<Rightarrow> 'g machine \<Rightarrow> 'g world \<Rightarrow> (exn + 'a) \<times> 'g world" where
  "exec (Return x) m w = (Inr x, w)"
| "exec (Raise e) m w = (Inl e, w)"
| "exec (Uuid c) m w =
     exec (c (uuid_source m (uuid_calls w))) m (w\<lparr>uuid_calls := Suc (uuid_calls w)\<rparr>)"
| "exec (Put b k d c) m w =
     (case s3_put m b k d (gateway w) of
        (r, g) \<Rightarrow> exec (c r) m (w\<lparr>gateway := g, calls := calls w @ [Put_call b k d r]\<rparr>))"
| "exec (Get b k c) m w =
     (case s3_get m b k (gateway w) of
        (r, g) \<Rightarrow> exec (c r) m (w\<lparr>gateway := g, calls := calls w @ [Get_call b k r]\<rparr>))"
| "exec (Delete b k c) m w =
     (case s3_delete m b k (gateway w) of
        (r, g) \<Rightarrow> exec (c r) m (w\<lparr>gateway := g, calls := calls w @ [Delete_call b k r]\<rparr>))"
| "exec (List_v2 b c) m w =
     (case s3_list m b (gateway w) of
        (r, g) \<Rightarrow> exec (c r) m (w\<lparr>gateway := g, calls := calls w @ [List_call b r]\<rparr>))"

subsection \<open>Threads\<close>

text \<open>
  A thread of \<^verbatim>\<open>run_test\<close> runs \<^verbatim>\<open>errors.append(fn(...))\<close>. It is alive
  with the rest of \<^verbatim>\<open>fn\<close> to run, or it has appended and finished, or an
  exception has ended it before the append (Python prints the traceback and goes on).
\<close>

datatype thread = Alive "int prog" | Finished | Died exn

type_synonym 'g pool = "thread list \<times> int list \<times> 'g world"

text \<open>
  The scheduler lets thread \<open>i\<close> make its next move: one call, or the final append.
\<close>

fun thread_step :: "'g machine \<Rightarrow> nat \<Rightarrow> 'g pool \<Rightarrow> 'g pool" where
  "thread_step m i (ts, errors, w) =
     (if i < length ts then
        (case ts ! i of
           Alive (Return v) \<Rightarrow> (ts[i := Finished], errors @ [v], w)
         | Alive (Raise e) \<Rightarrow> (ts[i := Died e], errors, w)
         | Alive p \<Rightarrow> (case step m p w of (p', w') \<Rightarrow> (ts[i := Alive p'], errors, w'))
         | _ \<Rightarrow> (ts, errors, w))
      else (ts, errors, w))"

text \<open>\<^verbatim>\<open>thread.join()\<close> on thread \<open>i\<close>: whatever is left of it runs.\<close>

fun join :: "'g machine \<Rightarrow> nat \<Rightarrow> 'g pool \<Rightarrow> 'g pool" where
  "join m i (ts, errors, w) =
     (if i < length ts then
        (case ts ! i of
           Alive p \<Rightarrow>
             (case exec p m w of
                (Inr v, w') \<Rightarrow> (ts[i := Finished], errors @ [v], w')
              | (Inl e, w') \<Rightarrow> (ts[i := Died e], errors, w'))
         | _ \<Rightarrow> (ts, errors, w))
      else (ts, errors, w))"

text \<open>
  The threads of one test under a schedule: the schedule names the thread that moves
  next, as often as it likes, and the joins then run what is left, in order. Every
  interleaving of the threads' calls is the run under some schedule.
\<close>

definition run_threads :: "'g machine \<Rightarrow> nat list \<Rightarrow> 'g pool \<Rightarrow> 'g pool" where
  "run_threads m schedule pool =
     (let pool' = fold (thread_step m) schedule pool
      in fold (join m) [0..<length (fst pool')] pool')"

datatype probe =
    Read_after_delete | Read_after_create | Read_after_overwrite
  | List_after_create | List_after_delete

fun fn_name :: "probe \<Rightarrow> string" where
  "fn_name Read_after_delete = ''read_after_delete''"
| "fn_name Read_after_create = ''read_after_create''"
| "fn_name Read_after_overwrite = ''read_after_overwrite''"
| "fn_name List_after_create = ''list_after_create''"
| "fn_name List_after_delete = ''list_after_delete''"

fun call_fn :: "probe \<Rightarrow> string \<Rightarrow> int \<Rightarrow> int \<Rightarrow> int prog" where
  "call_fn Read_after_delete = read_after_delete"
| "call_fn Read_after_create = read_after_create"
| "call_fn Read_after_overwrite = read_after_overwrite"
| "call_fn List_after_create = list_after_create"
| "call_fn List_after_delete = list_after_delete"

text \<open>
  The pool \<^verbatim>\<open>run_test\<close> starts: \<^verbatim>\<open>range(threads)\<close> threads, none for a
  negative count.
\<close>

definition start_threads :: "probe \<Rightarrow> string \<Rightarrow> int \<Rightarrow> int \<Rightarrow> int \<Rightarrow> 'g world \<Rightarrow> 'g pool" where
  "start_threads fn bucket iterations threads chunk_size w =
     (replicate (nat threads) (Alive (call_fn fn bucket iterations chunk_size)), [], w)"

text \<open>
  The percentage is Python's float \<^verbatim>\<open>(err_count / total) * 100.0\<close>; here it is
  the exact quotient, and the division by zero is the exception Python raises.
\<close>

definition percentage :: "int \<Rightarrow> int \<Rightarrow> exn + real" where
  "percentage err_count total_iterations =
     (if total_iterations = 0 then Inl ZeroDivisionError
      else Inr (real_of_int err_count / real_of_int total_iterations * 100))"

definition run_test ::
  "'g machine \<Rightarrow> string \<Rightarrow> probe \<Rightarrow> int \<Rightarrow> int \<Rightarrow> int \<Rightarrow> nat list \<Rightarrow> 'g world
     \<Rightarrow> (exn + int) \<times> 'g world" where
  "run_test m bucket fn iterations threads chunk_size schedule w =
     (case run_threads m schedule (start_threads fn bucket iterations threads chunk_size w) of
        (ts, errors, w') \<Rightarrow>
          (let err_count = sum_list errors in
           case percentage err_count (iterations * int (length ts)) of
             Inl e \<Rightarrow> (Inl e, w')
           | Inr err_pct \<Rightarrow>
               (Inr err_count,
                w'\<lparr>log_rows := log_rows w' @
                  [(fn_name fn, iterations * int (length ts), err_count, err_pct)]\<rparr>)))"

subsection \<open>The command line and \<^verbatim>\<open>main\<close>\<close>

text \<open>
  What \<^verbatim>\<open>parse_args\<close> returns. The three numbers are \<^verbatim>\<open>type=int\<close>: any
  integer is accepted, negative ones too.
\<close>

record args =
  args_iterations :: int
  args_threads :: int
  args_chunk_size :: int
  args_endpoint :: string
  args_region :: string
  args_clean :: bool
  args_bucket :: string

definition max_chunk_size :: int where
  "max_chunk_size = 5 * 1024 * 1024 * 1024"

definition print_out :: "out list \<Rightarrow> 'g world \<Rightarrow> 'g world" where
  "print_out ls w = w\<lparr>stdout := stdout w @ ls\<rparr>"

text \<open>The five \<^verbatim>\<open>run_test\<close> calls of \<^verbatim>\<open>main\<close>, in their order.\<close>

definition campaign :: "probe list" where
  "campaign =
     [Read_after_delete, Read_after_create, Read_after_overwrite,
      List_after_create, List_after_delete]"

text \<open>
  \<^verbatim>\<open>test_results.append((name, run_test(...)))\<close> for each test in turn; an
  exception of \<^verbatim>\<open>run_test\<close> ends \<^verbatim>\<open>main\<close>. Each test has a schedule of its
  own.
\<close>

fun run_tests ::
  "'g machine \<Rightarrow> args \<Rightarrow> (probe \<Rightarrow> nat list) \<Rightarrow> probe list \<Rightarrow> 'g world
     \<Rightarrow> (exn + (string \<times> int) list) \<times> 'g world" where
  "run_tests m a schedules [] w = (Inr [], w)"
| "run_tests m a schedules (fn # fns) w =
     (case run_test m (args_bucket a) fn (args_iterations a) (args_threads a)
             (args_chunk_size a) (schedules fn) w of
        (Inl e, w') \<Rightarrow> (Inl e, w')
      | (Inr err_count, w') \<Rightarrow>
          (case run_tests m a schedules fns w' of
             (Inl e, w'') \<Rightarrow> (Inl e, w'')
           | (Inr test_results, w'') \<Rightarrow> (Inr ((fn_name fn, err_count) # test_results), w'')))"

fun print_summary ::
  "args \<Rightarrow> (string \<times> int) list \<Rightarrow> 'g world \<Rightarrow> (exn + unit) \<times> 'g world" where
  "print_summary a [] w = (Inr (), w)"
| "print_summary a ((test_name, error_count) # test_results) w =
     (let total_iterations = args_iterations a * args_threads a in
      case percentage error_count total_iterations of
        Inl e \<Rightarrow> (Inl e, w)
      | Inr error_pct \<Rightarrow>
          print_summary a test_results
            (print_out [Row (test_name, total_iterations, error_count, error_pct)] w))"

definition summary_header :: "out list" where
  "summary_header =
     [Line [], Line ''Summary of Results:'',
      Line ''Test Name                      | Iterations | Errors | Error % '',
      Line (replicate 60 (CHR ''-''))]"

definition main ::
  "'g machine \<Rightarrow> args \<Rightarrow> (probe \<Rightarrow> nat list) \<Rightarrow> 'g world \<Rightarrow> (exn + unit) \<times> 'g world" where
  "main m args0 schedules w0 =
     (let (a, w1) =
            (if args_chunk_size args0 > max_chunk_size
             then (args0\<lparr>args_chunk_size := max_chunk_size\<rparr>,
                   print_out [Line '' ** Error ** : chunk-size exceeds the 5GB limit.'',
                              Line ''Setting chunk-size to 5GB.''] w0)
             else (args0, w0));
          w2 = print_out
                 [Line ''S3 credentials and S3 bucket name loaded into environment variables.''] w1
      in if args_clean a then exec (clean_up (args_bucket a)) m w2
         else
           (case run_tests m a schedules campaign w2 of
              (Inl e, w3) \<Rightarrow> (Inl e, w3)
            | (Inr test_results, w3) \<Rightarrow> print_summary a test_results (print_out summary_header w3)))"

subsection \<open>The gateways of the test scenarios\<close>

text \<open>
  The bucket of a mock gateway: the objects it holds, newest first. The mocks stand
  for one container and do not look at the bucket name.
\<close>

type_synonym store = "(key \<times> body) list"

definition remove_key :: "key \<Rightarrow> store \<Rightarrow> store" where
  "remove_key k s = filter (\<lambda>e. fst e \<noteq> k) s"

text \<open>
  Modelled from the spec: the fully consistent mock gateway, which is not part of the
  sources. Every get and list reflects the puts and deletes before it: put stores the
  body under the key, delete removes the key, get returns the stored body or the
  NotFound signal, list returns every stored key. No call fails otherwise.
\<close>

definition consistent_gateway :: "(nat \<Rightarrow> key) \<Rightarrow> store machine" where
  "consistent_gateway uuids =
     \<lparr>s3_put = (\<lambda>b k d s. (Inr (), (k, d) # remove_key k s)),
      s3_get = (\<lambda>b k s. (case map_of s k of None \<Rightarrow> Inl NoSuchKey | Some d \<Rightarrow> Inr d, s)),
      s3_delete = (\<lambda>b k s. (Inr (), remove_key k s)),
      s3_list = (\<lambda>b s. (Inr (map fst s), s)),
      uuid_source = uuids\<rparr>"

text \<open>
  Modelled from the spec: the mock gateway that always returns stale data, which is
  not part of the sources. A delete is accepted and changes nothing that is read:
  get after delete succeeds with the last-written body.
\<close>

definition stale_gateway :: "(nat \<Rightarrow> key) \<Rightarrow> store machine" where
  "stale_gateway uuids =
     \<lparr>s3_put = (\<lambda>b k d s. (Inr (), (k, d) # remove_key k s)),
      s3_get = (\<lambda>b k s. (case map_of s k of None \<Rightarrow> Inl NoSuchKey | Some d \<Rightarrow> Inr d, s)),
      s3_delete = (\<lambda>b k s. (Inr (), s)),
      s3_list = (\<lambda>b s. (Inr (map fst s), s)),
      uuid_source = uuids\<rparr>"

text \<open>
  Modelled from the spec: the gateway of the fault injection scenario, which is not
  part of the sources. It is the consistent gateway but for one call: the call number
  \<open>fault_at\<close> (counted from 0 over all four operations) raises a transient fault and
  changes nothing.
\<close>

definition faulty :: "nat \<Rightarrow> ('r \<times> store) \<Rightarrow> nat \<times> store \<Rightarrow> (exn + 'r) \<times> nat \<times> store" where
  "faulty fault_at answer g =
     (case g of (n, s) \<Rightarrow>
        if n = fault_at then (Inl TransientError, (Suc n, s))
        else (Inr (fst answer), (Suc n, snd answer)))"

definition faulty_gateway :: "nat \<Rightarrow> (nat \<Rightarrow> key) \<Rightarrow> (nat \<times> store) machine" where
  "faulty_gateway fault_at uuids =
     \<lparr>s3_put = (\<lambda>b k d g. faulty fault_at ((), (k, d) # remove_key k (snd g)) g),
      s3_get = (\<lambda>b k g.
        case g of (n, s) \<Rightarrow>
          if n = fault_at then (Inl TransientError, (Suc n, s))
          else (case map_of s k of None \<Rightarrow> Inl NoSuchKey | Some d \<Rightarrow> Inr d, (Suc n, s))),
      s3_delete = (\<lambda>b k g. faulty fault_at ((), remove_key k (snd g)) g),
      s3_list = (\<lambda>b g. faulty fault_at (map fst (snd g), snd g) g),
      uuid_source = uuids\<rparr>"

text \<open>A key source that never repeats: the \<open>n\<close>-th key is \<open>n\<close> letters long.\<close>

definition unary_keys :: "nat \<Rightarrow> key" where
  "unary_keys n = replicate n (CHR ''k'')"

definition world0 :: "'g \<Rightarrow> 'g world" where
  "world0 g = \<lparr>gateway = g, uuid_calls = 0, calls = [], log_rows = [], stdout = []\<rparr>"

subsection \<open>What is said about calls and request trees\<close>

text \<open>A call without its answer, and the exception a call raised.\<close>

datatype request =
    Put_req string key body
  | Get_req string key
  | Delete_req string key
  | List_req string

fun request_of :: "event \<Rightarrow> request" where
  "request_of (Put_call b k d r) = Put_req b k d"
| "request_of (Get_call b k r) = Get_req b k"
| "request_of (Delete_call b k r) = Delete_req b k"
| "request_of (List_call b r) = List_req b"

definition raised :: "exn + 'a \<Rightarrow> exn option" where
  "raised r = (case r of Inl e \<Rightarrow> Some e | Inr x \<Rightarrow> None)"

fun failure :: "event \<Rightarrow> exn option" where
  "failure (Put_call b k d r) = raised r"
| "failure (Get_call b k r) = raised r"
| "failure (Delete_call b k r) = raised r"
| "failure (List_call b r) = raised r"

text \<open>The calls a run has added to the world's record of calls.\<close>

definition new_calls :: "'g world \<Rightarrow> 'g world \<Rightarrow> event list" where
  "new_calls w w' = drop (length (calls w)) (calls w')"

text \<open>Every value the tree can return satisfies \<open>P\<close>, whatever the calls answer.\<close>

primrec returns_only :: "'a prog \<Rightarrow> ('a \<Rightarrow> bool) \<Rightarrow> bool" where
  "returns_only (Return x) P = P x"
| "returns_only (Raise e) P = True"
| "returns_only (Uuid c) P = (\<forall>k. returns_only (c k) P)"
| "returns_only (Put b k d c) P = (\<forall>r. returns_only (c r) P)"
| "returns_only (Get b k c) P = (\<forall>r. returns_only (c r) P)"
| "returns_only (Delete b k c) P = (\<forall>r. returns_only (c r) P)"
| "returns_only (List_v2 b c) P = (\<forall>r. returns_only (c r) P)"

text \<open>
  At every call of the tree, a failure other than \<open>NoSuchKey\<close> is raised on, with
  nothing done after it.
\<close>

definition passes_on :: "(exn + 'r \<Rightarrow> 'a prog) \<Rightarrow> bool" where
  "passes_on c = (\<forall>e. e \<noteq> NoSuchKey \<longrightarrow> c (Inl e) = Raise e)"

primrec strict :: "'a prog \<Rightarrow> bool" where
  "strict (Return x) = True"
| "strict (Raise e) = True"
| "strict (Uuid c) = (\<forall>k. strict (c k))"
| "strict (Put b k d c) = (passes_on c \<and> (\<forall>r. strict (c r)))"
| "strict (Get b k c) = (passes_on c \<and> (\<forall>r. strict (c r)))"
| "strict (Delete b k c) = (passes_on c \<and> (\<forall>r. strict (c r)))"
| "strict (List_v2 b c) = (passes_on c \<and> (\<forall>r. strict (c r)))"

text \<open>
  What a thread knows of a key it drew itself: nothing yet, that the bucket does not
  hold it, or the body the bucket holds for it.
\<close>

datatype kstate = Unknown | Absent | Holds body

type_synonym owned = "key \<rightharpoonup> kstate"

text \<open>
  A listing agrees with what a thread knows of its keys.
\<close>

definition listing_ok :: "owned \<Rightarrow> key list \<Rightarrow> bool" where
  "listing_ok own ks =
     ((\<forall>k. own k = Some Absent \<longrightarrow> k \<notin> set ks) \<and>
      (\<forall>k d. own k = Some (Holds d) \<longrightarrow> k \<in> set ks))"

text \<open>
  The tree touches only keys it drew itself, and when every call on them answers as a
  consistent gateway does, it raises nothing and returns a value that satisfies \<open>Q\<close>.
\<close>

primrec expects :: "'a prog \<Rightarrow> ('a \<Rightarrow> owned \<Rightarrow> bool) \<Rightarrow> owned \<Rightarrow> bool" where
  "expects (Return x) Q own = Q x own"
| "expects (Raise e) Q own = False"
| "expects (Uuid c) Q own = (\<forall>k. own k = None \<longrightarrow> expects (c k) Q (own(k \<mapsto> Unknown)))"
| "expects (Put b k d c) Q own = (own k \<noteq> None \<and> expects (c (Inr ())) Q (own(k \<mapsto> Holds d)))"
| "expects (Get b k c) Q own =
     (case own k of
        Some Absent \<Rightarrow> expects (c (Inl NoSuchKey)) Q own
      | Some (Holds d) \<Rightarrow> expects (c (Inr d)) Q own
      | _ \<Rightarrow> False)"
| "expects (Delete b k c) Q own = (own k \<noteq> None \<and> expects (c (Inr ())) Q (own(k \<mapsto> Absent)))"
| "expects (List_v2 b c) Q own = (\<forall>ks. listing_ok own ks \<longrightarrow> expects (c (Inr ks)) Q own)"

text \<open>
  The same for the stale gateway, where a key once written is read back for ever:
  \<open>K\<close> are the keys the thread has written.
\<close>

primrec expects_stale :: "'a prog \<Rightarrow> ('a \<Rightarrow> key set \<Rightarrow> bool) \<Rightarrow> key set \<Rightarrow> bool" where
  "expects_stale (Return x) Q K = Q x K"
| "expects_stale (Raise e) Q K = False"
| "expects_stale (Uuid c) Q K = (\<forall>k. expects_stale (c k) Q K)"
| "expects_stale (Put b k d c) Q K = expects_stale (c (Inr ())) Q (insert k K)"
| "expects_stale (Get b k c) Q K = (k \<in> K \<and> (\<forall>d. expects_stale (c (Inr d)) Q K))"
| "expects_stale (Delete b k c) Q K = expects_stale (c (Inr ())) Q K"
| "expects_stale (List_v2 b c) Q K = (\<forall>ks. expects_stale (c (Inr ks)) Q K)"

text \<open>How many threads of a pool have appended their count.\<close>

definition finished :: "thread list \<Rightarrow> nat" where
  "finished ts = length (filter (\<lambda>t. t = Finished) ts)"

definition alive :: "thread \<Rightarrow> bool" where
  "alive t = (case t of Alive p \<Rightarrow> True | _ \<Rightarrow> False)"


subsection \<open>Inputs of the examples\<close>

definition clamp_args :: args where
  "clamp_args =
     \<lparr>args_iterations = 1, args_threads = 1, args_chunk_size = 5368709121,
      args_endpoint = ''https://objectstore.basefarm.com'', args_region = ''us-east-1'',
      args_clean = False, args_bucket = ''s3consistency''\<rparr>"

text \<open>Every count a thread appends is one its function can return.\<close>

definition counts_in :: "(int \<Rightarrow> bool) \<Rightarrow> 'g pool \<Rightarrow> bool" where
  "counts_in P pool =
     ((\<forall>p. Alive p \<in> set (fst pool) \<longrightarrow> returns_only p P) \<and>
      (\<forall>v \<in> set (fst (snd pool)). P v))"

text \<open>The rows \<^verbatim>\<open>main\<close> prints for the results it has collected.\<close>

definition summary_rows :: "args \<Rightarrow> (string \<times> int) list \<Rightarrow> out list" where
  "summary_rows a test_results =
     map (\<lambda>(test_name, error_count).
            Row (test_name, args_iterations a * args_threads a, error_count,
                 real_of_int error_count / real_of_int (args_iterations a * args_threads a) * 100))
         test_results"

text \<open>Every body the tree can put is one of \<open>B\<close>.\<close>

primrec puts_in :: "'a prog \<Rightarrow> body set \<Rightarrow> bool" where
  "puts_in (Return x) B = True"
| "puts_in (Raise e) B = True"
| "puts_in (Uuid c) B = (\<forall>k. puts_in (c k) B)"
| "puts_in (Put b k d c) B = (d \<in> B \<and> (\<forall>r. puts_in (c r) B))"
| "puts_in (Get b k c) B = (\<forall>r. puts_in (c r) B)"
| "puts_in (Delete b k c) B = (\<forall>r. puts_in (c r) B)"
| "puts_in (List_v2 b c) B = (\<forall>r. puts_in (c r) B)"

text \<open>The first call of the tree is a put of the body \<open>d\<close>.\<close>

primrec first_put :: "'a prog \<Rightarrow> body \<Rightarrow> bool" where
  "first_put (Return x) d = False"
| "first_put (Raise e) d = False"
| "first_put (Uuid c) d = (\<forall>k. first_put (c k) d)"
| "first_put (Put b k d' c) d = (d' = d)"
| "first_put (Get b k c) d = False"
| "first_put (Delete b k c) d = False"
| "first_put (List_v2 b c) d = False"

definition is_put :: "body \<Rightarrow> event \<Rightarrow> bool" where
  "is_put d ev = (case ev of Put_call b k d' r \<Rightarrow> d' = d | _ \<Rightarrow> False)"

definition put_within :: "body set \<Rightarrow> event \<Rightarrow> bool" where
  "put_within B ev = (case ev of Put_call b k d r \<Rightarrow> d \<in> B | _ \<Rightarrow> True)"

text \<open>
  The threads of a test put bodies of \<open>B\<close> only: in the calls \<open>evs\<close> made since
  the world had the calls \<open>cs\<close>, and in what they have left to do.
\<close>

definition puts_inv :: "body set \<Rightarrow> event list \<Rightarrow> 'g pool \<Rightarrow> bool" where
  "puts_inv B cs pool =
     ((\<forall>p. Alive p \<in> set (fst pool) \<longrightarrow> puts_in p B) \<and>
      (\<exists>evs. calls (snd (snd pool)) = cs @ evs \<and> (\<forall>ev \<in> set evs. put_within B ev)))"

text \<open>
  Either a put of \<open>d\<close> is among the calls made since the world had the calls \<open>cs\<close>,
  or every thread still has it before it as its first call.
\<close>

definition first_inv :: "body \<Rightarrow> event list \<Rightarrow> 'g pool \<Rightarrow> bool" where
  "first_inv d cs pool =
     (\<exists>evs. calls (snd (snd pool)) = cs @ evs \<and>
        ((\<exists>ev \<in> set evs. is_put d ev) \<or>
         (\<forall>t \<in> set (fst pool). \<exists>p. t = Alive p \<and> first_put p d)))"

text \<open>
  The campaign of \<^verbatim>\<open>main\<close> for a chunk size within the limit: it ends without an
  exception, whatever the gateway answers, and prints one row for each test.
\<close>

definition credentials_line :: out where
  "credentials_line =
     Line ''S3 credentials and S3 bucket name loaded into environment variables.''"





section \<open>Running request trees\<close>

lemma exec_bind:
  "exec (bind p f) m w =
     (case exec p m w of (Inl e, w') \<Rightarrow> (Inl e, w') | (Inr x, w') \<Rightarrow> exec (f x) m w')"
  by (induction p arbitrary: w) (auto split: prod.splits)

section \<open>Threads under a schedule\<close>

lemma thread_step_length: "length (fst (thread_step m i pool)) = length (fst pool)"
  by (cases pool) (auto split: thread.splits prog.splits prod.splits)

lemma join_length: "length (fst (join m i pool)) = length (fst pool)"
  by (cases pool) (auto split: thread.splits prod.splits sum.splits)

lemma exec_step:
  "step m p w = (p', w') \<Longrightarrow> exec p m w = exec p' m w'"
  by (cases p) (auto split: prod.splits)

lemma join_after_call:
  assumes "i < length ts" and "ts ! i = Alive p" and "step m p w = (p', w')"
    and "\<And>x. p \<noteq> Return x" and "\<And>e. p \<noteq> Raise e"
    and "\<exists>n. join m i (ts[i := Alive p'], errors, w') =
           (thread_step m i ^^ n) (ts[i := Alive p'], errors, w')"
  shows "\<exists>n. join m i (ts, errors, w) = (thread_step m i ^^ n) (ts, errors, w)"
proof -
  have s: "thread_step m i (ts, errors, w) = (ts[i := Alive p'], errors, w')"
    using assms(1-5) by (cases p) auto
  have j: "join m i (ts, errors, w) = join m i (ts[i := Alive p'], errors, w')"
    using assms(1,2) exec_step [OF assms(3)] by (simp split: prod.splits sum.splits)
  from assms(6) obtain n where
    "join m i (ts[i := Alive p'], errors, w') =
       (thread_step m i ^^ n) (ts[i := Alive p'], errors, w')" ..
  with s j have "join m i (ts, errors, w) = (thread_step m i ^^ Suc n) (ts, errors, w)"
    by (simp add: funpow_swap1)
  then show ?thesis ..
qed

lemma join_as_steps:
  "i < length ts \<Longrightarrow> ts ! i = Alive p \<Longrightarrow>
   \<exists>n. join m i (ts, errors, w) = (thread_step m i ^^ n) (ts, errors, w)"
proof (induction p arbitrary: ts w)
  case (Return v)
  then have "join m i (ts, errors, w) = (thread_step m i ^^ 1) (ts, errors, w)" by simp
  then show ?case ..
next
  case (Raise e)
  then have "join m i (ts, errors, w) = (thread_step m i ^^ 1) (ts, errors, w)" by simp
  then show ?case ..
next
  case (Uuid c)
  obtain p' w' where s: "step m (Uuid c) w = (p', w')" and r: "p' \<in> range c" by simp
  have "\<exists>n. join m i (ts[i := Alive p'], errors, w') =
          (thread_step m i ^^ n) (ts[i := Alive p'], errors, w')"
    using Uuid.prems by (intro Uuid.IH [OF r]) simp_all
  then show ?case
    by (intro join_after_call [OF Uuid.prems s]) simp_all
next
  case (Put b k d c)
  obtain p' w' where s: "step m (Put b k d c) w = (p', w')" and r: "p' \<in> range c"
    by (cases "s3_put m b k d (gateway w)") simp
  have "\<exists>n. join m i (ts[i := Alive p'], errors, w') =
          (thread_step m i ^^ n) (ts[i := Alive p'], errors, w')"
    using Put.prems by (intro Put.IH [OF r]) simp_all
  then show ?case
    by (intro join_after_call [OF Put.prems s]) simp_all
next
  case (Get b k c)
  obtain p' w' where s: "step m (Get b k c) w = (p', w')" and r: "p' \<in> range c"
    by (cases "s3_get m b k (gateway w)") simp
  have "\<exists>n. join m i (ts[i := Alive p'], errors, w') =
          (thread_step m i ^^ n) (ts[i := Alive p'], errors, w')"
    using Get.prems by (intro Get.IH [OF r]) simp_all
  then show ?case
    by (intro join_after_call [OF Get.prems s]) simp_all
next
  case (Delete b k c)
  obtain p' w' where s: "step m (Delete b k c) w = (p', w')" and r: "p' \<in> range c"
    by (cases "s3_delete m b k (gateway w)") simp
  have "\<exists>n. join m i (ts[i := Alive p'], errors, w') =
          (thread_step m i ^^ n) (ts[i := Alive p'], errors, w')"
    using Delete.prems by (intro Delete.IH [OF r]) simp_all
  then show ?case
    by (intro join_after_call [OF Delete.prems s]) simp_all
next
  case (List_v2 b c)
  obtain p' w' where s: "step m (List_v2 b c) w = (p', w')" and r: "p' \<in> range c"
    by (cases "s3_list m b (gateway w)") simp
  have "\<exists>n. join m i (ts[i := Alive p'], errors, w') =
          (thread_step m i ^^ n) (ts[i := Alive p'], errors, w')"
    using List_v2.prems by (intro List_v2.IH [OF r]) simp_all
  then show ?case
    by (intro join_after_call [OF List_v2.prems s]) simp_all
qed

lemma join_steps: "\<exists>n. join m i pool = (thread_step m i ^^ n) pool"
proof (cases pool)
  case (fields ts errors w)
  show ?thesis
  proof (cases "i < length ts \<and> alive (ts ! i)")
    case True
    then obtain p where "ts ! i = Alive p" by (auto simp: alive_def split: thread.splits)
    with True fields show ?thesis using join_as_steps by blast
  next
    case False
    then have "join m i pool = (thread_step m i ^^ 0) pool"
      using fields by (auto simp: alive_def split: thread.splits)
    then show ?thesis ..
  qed
qed

text \<open>A property that no move of a thread breaks holds after the whole run.\<close>

lemma steps_invariant:
  assumes "\<And>i pool. I pool \<Longrightarrow> I (thread_step m i pool)"
  shows "I pool \<Longrightarrow> I ((thread_step m i ^^ n) pool)"
  by (induction n) (simp_all add: assms)

lemma join_invariant:
  assumes "\<And>i pool. I pool \<Longrightarrow> I (thread_step m i pool)" and "I pool"
  shows "I (join m i pool)"
proof -
  obtain n where "join m i pool = (thread_step m i ^^ n) pool" using join_steps by blast
  moreover have "I ((thread_step m i ^^ n) pool)"
    by (rule steps_invariant) (fact assms)+
  ultimately show ?thesis by simp
qed

lemma fold_invariant:
  assumes "\<And>i pool. I pool \<Longrightarrow> I (f i pool)"
  shows "I pool \<Longrightarrow> I (fold f xs pool)"
  by (induction xs arbitrary: pool) (simp_all add: assms)

lemma run_threads_invariant:
  assumes "\<And>i pool. I pool \<Longrightarrow> I (thread_step m i pool)" and "I pool"
  shows "I (run_threads m schedule pool)"
proof -
  have "I (fold (thread_step m) schedule pool)"
    using assms by (rule fold_invariant [where I = I and f = "thread_step m"])
  moreover have "\<And>i q. I q \<Longrightarrow> I (join m i q)"
    using assms(1) by (rule join_invariant [where I = I])
  ultimately show ?thesis
    unfolding run_threads_def Let_def
    by (rule fold_invariant [where I = I and f = "join m", rotated])
qed

text \<open>After the joins no thread is left alive.\<close>

lemma join_not_alive:
  "join m i (ts, errors, w) = (ts', errors', w') \<Longrightarrow> j < length ts \<Longrightarrow>
   j = i \<or> \<not> alive (ts ! j) \<Longrightarrow> \<not> alive (ts' ! j)"
  by (cases "j = i") (auto simp: alive_def split: thread.splits prod.splits sum.splits if_splits)

lemma joins_not_alive:
  "n \<le> length (fst pool) \<Longrightarrow> j < n \<Longrightarrow> \<not> alive (fst (fold (join m) [0..<n] pool) ! j)"
proof (induction n arbitrary: j)
  case 0
  then show ?case by simp
next
  case (Suc n)
  obtain ts errors w where p: "fold (join m) [0..<n] pool = (ts, errors, w)"
    by (cases "fold (join m) [0..<n] pool")
  have len: "length ts = length (fst pool)"
    using fold_invariant [of "\<lambda>q. length (fst q) = length (fst pool)" "join m" pool "[0..<n]"] p
    by (simp add: join_length)
  obtain ts' errors' w' where q: "join m n (ts, errors, w) = (ts', errors', w')"
    by (cases "join m n (ts, errors, w)")
  have "j = n \<or> \<not> alive (ts ! j)"
    using Suc.IH [of j] Suc.prems p by (cases "j = n") auto
  with join_not_alive [OF q, of j] Suc.prems len have "\<not> alive (ts' ! j)" by simp
  with p q show ?case by simp
qed

lemma run_threads_length: "length (fst (run_threads m schedule pool)) = length (fst pool)"
  by (rule run_threads_invariant [of "\<lambda>q. length (fst q) = length (fst pool)"])
     (simp_all add: thread_step_length)

lemma run_threads_not_alive:
  "t \<in> set (fst (run_threads m schedule pool)) \<Longrightarrow> \<not> alive t"
proof -
  assume "t \<in> set (fst (run_threads m schedule pool))"
  then obtain j where j: "j < length (fst (run_threads m schedule pool))"
    and t: "t = fst (run_threads m schedule pool) ! j"
    by (auto simp: in_set_conv_nth)
  define pool' where "pool' = fold (thread_step m) schedule pool"
  have r: "run_threads m schedule pool = fold (join m) [0..<length (fst pool')] pool'"
    by (simp add: run_threads_def pool'_def Let_def)
  have "length (fst (run_threads m schedule pool)) = length (fst pool')"
    unfolding r
    by (rule fold_invariant [of "\<lambda>q. length (fst q) = length (fst pool')"]) (simp_all add: join_length)
  with j have "j < length (fst pool')" by simp
  with joins_not_alive [of "length (fst pool')" pool' j m] r t show ?thesis by simp
qed


text \<open>The list \<^verbatim>\<open>errors\<close> has one entry for each thread that has finished.\<close>

lemma finished_update:
  "i < length ts \<Longrightarrow> ts ! i \<noteq> Finished \<Longrightarrow>
   finished (ts[i := t]) = (if t = Finished then Suc (finished ts) else finished ts)"
proof (induction ts arbitrary: i)
  case Nil
  then show ?case by simp
next
  case (Cons a ts)
  then show ?case by (cases i) (auto simp: finished_def)
qed

lemma thread_step_counted:
  "length (fst (snd pool)) = finished (fst pool) \<Longrightarrow>
   length (fst (snd (thread_step m i pool))) = finished (fst (thread_step m i pool))"
  by (cases pool) (auto simp: finished_update split: thread.splits prog.splits prod.splits)

lemma run_threads_counted:
  "length (fst (snd pool)) = finished (fst pool) \<Longrightarrow>
   length (fst (snd (run_threads m schedule pool))) = finished (fst (run_threads m schedule pool))"
  by (rule run_threads_invariant [of "\<lambda>q. length (fst (snd q)) = finished (fst q)"])
     (simp_all add: thread_step_counted)

section \<open>The counts a probe can return\<close>

lemma returns_only_mono:
  "returns_only p P \<Longrightarrow> (\<And>x. P x \<Longrightarrow> Q x) \<Longrightarrow> returns_only p Q"
  by (induction p) auto

lemma returns_only_bind:
  "returns_only (bind p f) P = returns_only p (\<lambda>x. returns_only (f x) P)"
  by (induction p) auto

lemma returns_only_for_range:
  assumes "\<And>s. returns_only (body s) (\<lambda>v. s \<le> v \<and> v \<le> s + 1)"
  shows "returns_only (for_range n body s) (\<lambda>v. s \<le> v \<and> v \<le> s + int n)"
proof (induction n arbitrary: s)
  case 0
  show ?case by simp
next
  case (Suc n)
  have "returns_only (body s) (\<lambda>x. returns_only (for_range n body x) (\<lambda>v. s \<le> v \<and> v \<le> s + int (Suc n)))"
  proof (rule returns_only_mono [OF assms [of s]])
    fix x :: int
    assume "s \<le> x \<and> x \<le> s + 1"
    then show "returns_only (for_range n body x) (\<lambda>v. s \<le> v \<and> v \<le> s + int (Suc n))"
      by (intro returns_only_mono [OF Suc.IH [of x]]) auto
  qed
  then show ?case by (simp add: returns_only_bind)
qed

lemma returns_only_step:
  "returns_only (list_after_delete_step bucket chunk_size s) (\<lambda>v. s \<le> v \<and> v \<le> s + 1)"
  "returns_only (list_after_create_step bucket chunk_size s) (\<lambda>v. s \<le> v \<and> v \<le> s + 1)"
  "returns_only (read_after_overwrite_step bucket chunk_size s) (\<lambda>v. s \<le> v \<and> v \<le> s + 1)"
  "returns_only (read_after_delete_step bucket chunk_size s) (\<lambda>v. s \<le> v \<and> v \<le> s + 1)"
  "returns_only (read_after_create_step bucket chunk_size s) (\<lambda>v. s \<le> v \<and> v \<le> s + 1)"
  by (auto simp: list_after_delete_step_def list_after_create_step_def
        read_after_overwrite_step_def read_after_delete_step_def read_after_create_step_def
        create_random_file_def uuid4_def put_object_def get_object_def delete_object_def
        list_objects_v2_def raise_or_return_def Let_def split: sum.splits)

lemma returns_only_loop:
  assumes "\<And>s. returns_only (body s) (\<lambda>v. s \<le> v \<and> v \<le> s + 1)"
  shows "returns_only (for_range (nat iterations) body 0) (\<lambda>v. 0 \<le> v \<and> v \<le> int (nat iterations))"
proof -
  have "returns_only (for_range (nat iterations) body 0)
          (\<lambda>v. 0 \<le> v \<and> v \<le> 0 + int (nat iterations))"
    using assms by (rule returns_only_for_range)
  then show ?thesis by (rule returns_only_mono) simp
qed

lemma returns_only_call_fn:
  "returns_only (call_fn fn bucket iterations chunk_size) (\<lambda>v. 0 \<le> v \<and> v \<le> int (nat iterations))"
  by (cases fn;
      simp only: call_fn.simps list_after_delete_def list_after_create_def
        read_after_overwrite_def read_after_delete_def read_after_create_def;
      rule returns_only_loop; rule returns_only_step)

lemma returns_only_after_step:
  "returns_only p P \<Longrightarrow> step m p w = (p', w') \<Longrightarrow> returns_only p' P"
  by (cases p) (auto split: prod.splits)

lemma in_set_update: "x \<in> set (xs[i := y]) \<Longrightarrow> x = y \<or> x \<in> set xs"
  using set_update_subset_insert [of xs i y] by auto

lemma thread_step_counts_in:
  assumes "counts_in P pool"
  shows "counts_in P (thread_step m i pool)"
proof (cases pool)
  case (fields ts errors w)
  show ?thesis
  proof (cases "i < length ts \<and> alive (ts ! i)")
    case False
    with assms fields show ?thesis
      by (auto simp: alive_def split: thread.splits)
  next
    case True
    then obtain p where p: "ts ! i = Alive p" and i: "i < length ts"
      by (auto simp: alive_def split: thread.splits)
    then have "Alive p \<in> set ts" by (metis nth_mem)
    with assms fields have r: "returns_only p P" by (simp add: counts_in_def)
    obtain p' w' where s: "step m p w = (p', w')" by (cases "step m p w")
    have r': "returns_only p' P" using r s by (rule returns_only_after_step)
    show ?thesis
      using fields p i r r' s assms
      by (cases p) (auto simp: counts_in_def dest!: in_set_update)
  qed
qed

section \<open>What a test returns\<close>

lemma finished_le: "finished ts \<le> length ts"
  by (simp add: finished_def)


lemma sum_list_bounds:
  fixes N :: int
  shows "(\<And>v. v \<in> set xs \<Longrightarrow> 0 \<le> v \<and> v \<le> N) \<Longrightarrow>
         0 \<le> sum_list xs \<and> sum_list xs \<le> int (length xs) * N"
proof (induction xs)
  case Nil
  show ?case by simp
next
  case (Cons x xs)
  have "0 \<le> x \<and> x \<le> N" using Cons.prems [of x] by simp
  moreover have "0 \<le> sum_list xs \<and> sum_list xs \<le> int (length xs) * N"
    using Cons.prems by (intro Cons.IH) simp
  ultimately show ?case by (simp add: algebra_simps)
qed

text \<open>The pool of a test when all its threads are done.\<close>

lemma run_threads_start:
  assumes "run_threads m schedule (start_threads fn bucket iterations threads chunk_size w) =
             (ts, errors, w')"
  shows "length ts = nat threads" and "length errors = finished ts"
    and "\<And>t. t \<in> set ts \<Longrightarrow> \<not> alive t"
    and "\<And>v. v \<in> set errors \<Longrightarrow> 0 \<le> v \<and> v \<le> int (nat iterations)"
proof -
  let ?pool = "start_threads fn bucket iterations threads chunk_size w"
  show "length ts = nat threads"
    using run_threads_length [of m schedule ?pool] assms by (simp add: start_threads_def)
  have "finished (replicate (nat threads) (Alive (call_fn fn bucket iterations chunk_size))) = 0"
    by (simp add: finished_def)
  then show "length errors = finished ts"
    using run_threads_counted [of ?pool m schedule] assms by (simp add: start_threads_def)
  show "\<And>t. t \<in> set ts \<Longrightarrow> \<not> alive t"
    using run_threads_not_alive [of _ m schedule ?pool] assms by simp
  let ?P = "\<lambda>v. 0 \<le> v \<and> v \<le> int (nat iterations)"
  have "returns_only p ?P" if "Alive p \<in> set (fst ?pool)" for p
  proof -
    from that have "p = call_fn fn bucket iterations chunk_size"
      by (simp add: start_threads_def)
    then show ?thesis by (simp only: returns_only_call_fn)
  qed
  moreover have "?P v" if "v \<in> set (fst (snd ?pool))" for v
    using that by (simp add: start_threads_def)
  ultimately have "counts_in ?P ?pool"
    unfolding counts_in_def by blast
  then have "counts_in ?P (run_threads m schedule ?pool)"
    by (intro run_threads_invariant [where I = "counts_in ?P"]) (rule thread_step_counts_in)
  then show "\<And>v. v \<in> set errors \<Longrightarrow> 0 \<le> v \<and> v \<le> int (nat iterations)"
    using assms by (simp add: counts_in_def)
qed

text \<open>What \<^verbatim>\<open>run_test\<close> returns and logs when it returns.\<close>

lemma run_test_returns:
  assumes "run_test m bucket fn iterations threads chunk_size schedule w = (Inr c, w')"
  obtains ts errors w1 where
    "run_threads m schedule (start_threads fn bucket iterations threads chunk_size w) =
       (ts, errors, w1)"
    and "c = sum_list errors" and "iterations \<noteq> 0" and "0 < threads"
    and "w' = w1\<lparr>log_rows := log_rows w1 @
           [(fn_name fn, iterations * threads, c,
             real_of_int c / real_of_int (iterations * threads) * 100)]\<rparr>"
proof -
  obtain ts errors w1 where
    r: "run_threads m schedule (start_threads fn bucket iterations threads chunk_size w) =
          (ts, errors, w1)"
    by (cases "run_threads m schedule (start_threads fn bucket iterations threads chunk_size w)")
  have len: "length ts = nat threads" using r by (rule run_threads_start)
  have nz: "iterations * int (length ts) \<noteq> 0"
    using assms r by (auto simp: run_test_def percentage_def Let_def split: if_splits)
  then have t: "0 < threads" and i: "iterations \<noteq> 0"
    using len by (cases "0 < threads"; simp)+
  then have l: "int (length ts) = threads" using len by simp
  show thesis
  proof (rule that [OF r _ i t])
    show "c = sum_list errors"
      using assms r nz by (auto simp: run_test_def percentage_def Let_def)
    show "w' = w1\<lparr>log_rows := log_rows w1 @
           [(fn_name fn, iterations * threads, c,
             real_of_int c / real_of_int (iterations * threads) * 100)]\<rparr>"
      using assms r nz l by (auto simp: run_test_def percentage_def Let_def)
  qed
qed

section \<open>What main prints\<close>

lemma print_out_append: "print_out ys (print_out xs w) = print_out (xs @ ys) w"
  by (simp add: print_out_def)

lemma print_summary_rows:
  "args_iterations a * args_threads a \<noteq> 0 \<Longrightarrow>
   print_summary a test_results w = (Inr (), print_out (summary_rows a test_results) w)"
proof (induction test_results arbitrary: w)
  case Nil
  show ?case by (simp add: summary_rows_def print_out_def)
next
  case (Cons r rs)
  obtain n c where r: "r = (n, c)" by (cases r)
  show ?case
    using Cons.prems Cons.IH [OF Cons.prems]
    by (simp add: r percentage_def summary_rows_def print_out_append Let_def)
qed

section \<open>What the campaign calls\<close>

text \<open>The moves a thread can make.\<close>

lemma thread_step_cases:
  obtains
    (idle) "thread_step m i (ts, errors, w) = (ts, errors, w)"
  | (finish) v where "i < length ts" and "ts ! i = Alive (Return v)"
      and "thread_step m i (ts, errors, w) = (ts[i := Finished], errors @ [v], w)"
  | (die) e where "i < length ts" and "ts ! i = Alive (Raise e)"
      and "thread_step m i (ts, errors, w) = (ts[i := Died e], errors, w)"
  | (call) p p' w' where "i < length ts" and "ts ! i = Alive p"
      and "step m p w = (p', w')"
      and "thread_step m i (ts, errors, w) = (ts[i := Alive p'], errors, w')"
proof (cases "i < length ts \<and> alive (ts ! i)")
  case False
  then have "thread_step m i (ts, errors, w) = (ts, errors, w)"
    by (auto simp: alive_def split: thread.splits)
  then show thesis by (rule idle)
next
  case True
  then obtain p where i: "i < length ts" and p: "ts ! i = Alive p"
    by (auto simp: alive_def split: thread.splits)
  obtain p' w' where s: "step m p w = (p', w')" by (cases "step m p w")
  show thesis
  proof (cases p)
    case (Return v)
    with i p show thesis by (intro finish [of v]) simp_all
  next
    case (Raise e)
    with i p show thesis by (intro die [of e]) simp_all
  next
    case (Uuid c)
    with i p s show thesis by (intro call [of p p' w']) auto
  next
    case (Put b k d c)
    with i p s show thesis by (intro call [of p p' w']) auto
  next
    case (Get b k c)
    with i p s show thesis by (intro call [of p p' w']) auto
  next
    case (Delete b k c)
    with i p s show thesis by (intro call [of p p' w']) auto
  next
    case (List_v2 b c)
    with i p s show thesis by (intro call [of p p' w']) auto
  qed
qed

text \<open>A call changes neither what is printed nor what is logged.\<close>

lemma step_output:
  "step m p w = (p', w') \<Longrightarrow> stdout w' = stdout w \<and> log_rows w' = log_rows w"
  by (cases p) (auto split: prod.splits)

lemma thread_step_output:
  "stdout (snd (snd (thread_step m i pool))) = stdout (snd (snd pool)) \<and>
   log_rows (snd (snd (thread_step m i pool))) = log_rows (snd (snd pool))"
proof (cases pool)
  case (fields ts errors w)
  show ?thesis
    unfolding fields
    by (cases rule: thread_step_cases [of m i ts errors w]) (auto dest: step_output)
qed

lemma run_threads_output:
  "stdout (snd (snd (run_threads m schedule pool))) = stdout (snd (snd pool)) \<and>
   log_rows (snd (snd (run_threads m schedule pool))) = log_rows (snd (snd pool))"
  by (rule run_threads_invariant
        [where I = "\<lambda>q. stdout (snd (snd q)) = stdout (snd (snd pool)) \<and>
                       log_rows (snd (snd q)) = log_rows (snd (snd pool))"])
     (simp_all add: thread_step_output)

text \<open>The bodies that are put, call by call.\<close>

lemma step_puts_in:
  "puts_in p B \<Longrightarrow> step m p w = (p', w') \<Longrightarrow>
   puts_in p' B \<and> (\<exists>evs. calls w' = calls w @ evs \<and> (\<forall>ev \<in> set evs. put_within B ev))"
  by (cases p) (auto simp: put_within_def split: prod.splits)

lemma step_first_put:
  "first_put p d \<Longrightarrow> step m p w = (p', w') \<Longrightarrow>
   (first_put p' d \<and> calls w' = calls w) \<or> (\<exists>ev. calls w' = calls w @ [ev] \<and> is_put d ev)"
  by (cases p) (auto simp: is_put_def split: prod.splits)

lemma step_calls: "step m p w = (p', w') \<Longrightarrow> \<exists>evs. calls w' = calls w @ evs"
  by (cases p) (auto split: prod.splits)

lemma thread_step_puts_inv:
  assumes "puts_inv B cs pool"
  shows "puts_inv B cs (thread_step m i pool)"
proof (cases pool)
  case (fields ts errors w)
  from assms fields have a: "\<And>p. Alive p \<in> set ts \<Longrightarrow> puts_in p B"
    and e: "\<exists>evs. calls w = cs @ evs \<and> (\<forall>ev \<in> set evs. put_within B ev)"
    by (simp_all add: puts_inv_def)
  show ?thesis
    unfolding fields
  proof (cases rule: thread_step_cases [of m i ts errors w])
    case idle
    with assms fields show "puts_inv B cs (thread_step m i (ts, errors, w))" by simp
  next
    case (finish v)
    with a e show "puts_inv B cs (thread_step m i (ts, errors, w))"
      by (auto simp: puts_inv_def dest!: in_set_update)
  next
    case (die x)
    with a e show "puts_inv B cs (thread_step m i (ts, errors, w))"
      by (auto simp: puts_inv_def dest!: in_set_update)
  next
    case (call p p' w')
    from call(1,2) have "Alive p \<in> set ts" by (metis nth_mem)
    then have "puts_in p B" by (rule a)
    from step_puts_in [OF this call(3)] obtain evs' where
      p': "puts_in p' B" and c: "calls w' = calls w @ evs'" and w: "\<forall>ev \<in> set evs'. put_within B ev"
      by blast
    from e obtain evs where "calls w = cs @ evs" and "\<forall>ev \<in> set evs. put_within B ev" by blast
    with c w have "calls w' = cs @ (evs @ evs') \<and> (\<forall>ev \<in> set (evs @ evs'). put_within B ev)"
      by auto
    then have "\<exists>evs. calls w' = cs @ evs \<and> (\<forall>ev \<in> set evs. put_within B ev)" by blast
    moreover have "\<And>q. Alive q \<in> set (ts[i := Alive p']) \<Longrightarrow> puts_in q B"
      using a p' by (auto dest!: in_set_update)
    ultimately show "puts_inv B cs (thread_step m i (ts, errors, w))"
      unfolding call(4) puts_inv_def by simp
  qed
qed

lemma thread_step_first_inv:
  assumes "first_inv d cs pool"
  shows "first_inv d cs (thread_step m i pool)"
proof (cases pool)
  case (fields ts errors w)
  from assms fields obtain evs where c: "calls w = cs @ evs"
    and d: "(\<exists>ev \<in> set evs. is_put d ev) \<or> (\<forall>t \<in> set ts. \<exists>p. t = Alive p \<and> first_put p d)"
    by (auto simp: first_inv_def)
  show ?thesis
    unfolding fields
  proof (cases rule: thread_step_cases [of m i ts errors w])
    case idle
    with assms fields show "first_inv d cs (thread_step m i (ts, errors, w))" by simp
  next
    case (finish v)
    then have "Alive (Return v) \<in> set ts" by (metis nth_mem)
    with d have "\<exists>ev \<in> set evs. is_put d ev" by fastforce
    with c finish(3) show "first_inv d cs (thread_step m i (ts, errors, w))"
      by (auto simp: first_inv_def)
  next
    case (die x)
    then have "Alive (Raise x) \<in> set ts" by (metis nth_mem)
    with d have "\<exists>ev \<in> set evs. is_put d ev" by fastforce
    with c die(3) show "first_inv d cs (thread_step m i (ts, errors, w))"
      by (auto simp: first_inv_def)
  next
    case (call p p' w')
    from step_calls [OF call(3)] obtain evs' where c': "calls w' = calls w @ evs'" by blast
    show "first_inv d cs (thread_step m i (ts, errors, w))"
    proof (cases "\<exists>ev \<in> set evs. is_put d ev")
      case True
      with c c' have "calls w' = cs @ (evs @ evs') \<and> (\<exists>ev \<in> set (evs @ evs'). is_put d ev)"
        by auto
      then show ?thesis unfolding first_inv_def call(4) by (intro exI [of _ "evs @ evs'"]) simp
    next
      case False
      with d have all: "\<forall>t \<in> set ts. \<exists>p. t = Alive p \<and> first_put p d" by blast
      from call(1,2) have "Alive p \<in> set ts" by (metis nth_mem)
      with all have "first_put p d" by fastforce
      from step_first_put [OF this call(3)] show ?thesis
      proof
        assume f: "first_put p' d \<and> calls w' = calls w"
        then have "\<forall>t \<in> set (ts[i := Alive p']). \<exists>q. t = Alive q \<and> first_put q d"
          using all by (auto dest!: in_set_update)
        with f c show ?thesis unfolding first_inv_def call(4) by (intro exI [of _ evs]) simp
      next
        assume "\<exists>ev. calls w' = calls w @ [ev] \<and> is_put d ev"
        then obtain ev where "calls w' = calls w @ [ev]" and "is_put d ev" by blast
        with c have "calls w' = cs @ (evs @ [ev]) \<and> (\<exists>x \<in> set (evs @ [ev]). is_put d x)"
          by auto
        then show ?thesis unfolding first_inv_def call(4) by (intro exI [of _ "evs @ [ev]"]) simp
      qed
    qed
  qed
qed

text \<open>The bodies the probes put.\<close>

lemma puts_in_bind:
  "puts_in p B \<Longrightarrow> (\<And>x. puts_in (f x) B) \<Longrightarrow> puts_in (bind p f) B"
  by (induction p) auto

lemma puts_in_for_range:
  "(\<And>s. puts_in (body s) B) \<Longrightarrow> puts_in (for_range n body s) B"
  by (induction n arbitrary: s) (simp_all add: puts_in_bind)

lemma puts_in_step:
  "puts_in (list_after_delete_step bucket chunk_size s) {replicate (nat chunk_size) 0, replicate (nat (chunk_size + 1)) 0}"
  "puts_in (list_after_create_step bucket chunk_size s) {replicate (nat chunk_size) 0, replicate (nat (chunk_size + 1)) 0}"
  "puts_in (read_after_overwrite_step bucket chunk_size s) {replicate (nat chunk_size) 0, replicate (nat (chunk_size + 1)) 0}"
  "puts_in (read_after_delete_step bucket chunk_size s) {replicate (nat chunk_size) 0, replicate (nat (chunk_size + 1)) 0}"
  "puts_in (read_after_create_step bucket chunk_size s) {replicate (nat chunk_size) 0, replicate (nat (chunk_size + 1)) 0}"
  by (auto simp: list_after_delete_step_def list_after_create_step_def
        read_after_overwrite_step_def read_after_delete_step_def read_after_create_step_def
        create_random_file_def uuid4_def put_object_def get_object_def delete_object_def
        list_objects_v2_def raise_or_return_def Let_def split: sum.splits)

lemma puts_in_call_fn:
  "puts_in (call_fn fn bucket iterations chunk_size)
     {replicate (nat chunk_size) 0, replicate (nat (chunk_size + 1)) 0}"
  by (cases fn;
      simp only: call_fn.simps list_after_delete_def list_after_create_def
        read_after_overwrite_def read_after_delete_def read_after_create_def;
      rule puts_in_for_range; rule puts_in_step)

lemma first_put_bind: "first_put p d \<Longrightarrow> first_put (bind p f) d"
  by (induction p) auto

lemma first_put_step:
  "first_put (list_after_delete_step bucket chunk_size s) (replicate (nat chunk_size) 0)"
  "first_put (list_after_create_step bucket chunk_size s) (replicate (nat chunk_size) 0)"
  "first_put (read_after_overwrite_step bucket chunk_size s) (replicate (nat chunk_size) 0)"
  "first_put (read_after_delete_step bucket chunk_size s) (replicate (nat chunk_size) 0)"
  "first_put (read_after_create_step bucket chunk_size s) (replicate (nat chunk_size) 0)"
  by (simp_all add: list_after_delete_step_def list_after_create_step_def
        read_after_overwrite_step_def read_after_delete_step_def read_after_create_step_def
        create_random_file_def uuid4_def put_object_def)

lemma first_put_for_range:
  "(\<And>s. first_put (body s) d) \<Longrightarrow> 0 < n \<Longrightarrow> first_put (for_range n body s) d"
  by (cases n) (simp_all add: first_put_bind)

lemma first_put_call_fn:
  assumes "0 < iterations"
  shows "first_put (call_fn fn bucket iterations chunk_size) (replicate (nat chunk_size) 0)"
proof -
  have n: "0 < nat iterations" using assms by simp
  show ?thesis
    by (cases fn;
        simp only: call_fn.simps list_after_delete_def list_after_create_def
          read_after_overwrite_def read_after_delete_def read_after_create_def;
        rule first_put_for_range [OF _ n]; rule first_put_step)
qed

text \<open>A test with threads to start and a divisor other than zero returns.\<close>

lemma run_test_completes:
  assumes "iterations \<noteq> 0" and "0 < threads"
    and "run_threads m schedule (start_threads fn bucket iterations threads chunk_size w) =
           (ts, errors, w1)"
  shows "run_test m bucket fn iterations threads chunk_size schedule w =
           (Inr (sum_list errors),
            w1\<lparr>log_rows := log_rows w1 @
              [(fn_name fn, iterations * threads, sum_list errors,
                real_of_int (sum_list errors) / real_of_int (iterations * threads) * 100)]\<rparr>)"
proof -
  have "length ts = nat threads" using assms(3) by (rule run_threads_start)
  then have l: "int (length ts) = threads" and n: "ts \<noteq> []" using assms(2) by auto
  show ?thesis
    using assms(1,3) n by (simp add: run_test_def percentage_def l Let_def)
qed

lemma run_test_world:
  "calls (snd (run_test m bucket fn iterations threads chunk_size schedule w)) =
     calls (snd (snd (run_threads m schedule
       (start_threads fn bucket iterations threads chunk_size w)))) \<and>
   stdout (snd (run_test m bucket fn iterations threads chunk_size schedule w)) = stdout w"
proof -
  let ?pool = "start_threads fn bucket iterations threads chunk_size w"
  obtain ts errors w1 where r: "run_threads m schedule ?pool = (ts, errors, w1)"
    by (cases "run_threads m schedule ?pool")
  have "stdout w1 = stdout w"
    using run_threads_output [of m schedule ?pool] r by (simp add: start_threads_def)
  then show ?thesis
    using r by (simp add: run_test_def Let_def split: sum.splits)
qed

text \<open>
  The calls of one test: every put has a body of the chunk size or, for the
  overwrite, of one byte more; and a test that starts a thread with an iteration to
  run puts a body of exactly the chunk size.
\<close>

lemma run_test_puts:
  fixes chunk_size :: int
  defines "B \<equiv> {replicate (nat chunk_size) (0::8 word), replicate (nat (chunk_size + 1)) 0}"
    and "d \<equiv> replicate (nat chunk_size) (0::8 word)"
  shows "\<exists>evs. calls (snd (run_test m bucket fn iterations threads chunk_size schedule w)) =
                 calls w @ evs \<and>
               (\<forall>ev \<in> set evs. put_within B ev) \<and>
               (0 < iterations \<and> 0 < threads \<longrightarrow> (\<exists>ev \<in> set evs. is_put d ev))"
proof -
  let ?pool = "start_threads fn bucket iterations threads chunk_size w"
  obtain ts errors w1 where r: "run_threads m schedule ?pool = (ts, errors, w1)"
    by (cases "run_threads m schedule ?pool")
  have c: "calls (snd (run_test m bucket fn iterations threads chunk_size schedule w)) = calls w1"
    using run_test_world [of m bucket fn iterations threads chunk_size schedule w] r by simp
  have "puts_inv B (calls w) ?pool"
    unfolding puts_inv_def start_threads_def B_def
    using puts_in_call_fn [of fn bucket iterations chunk_size] by auto
  then have "puts_inv B (calls w) (run_threads m schedule ?pool)"
    by (intro run_threads_invariant [where I = "puts_inv B (calls w)"]) (rule thread_step_puts_inv)
  then obtain evs where e: "calls w1 = calls w @ evs" and p: "\<forall>ev \<in> set evs. put_within B ev"
    using r by (auto simp: puts_inv_def)
  have "\<exists>ev \<in> set evs. is_put d ev" if it: "0 < iterations" and th: "0 < threads"
  proof -
    have "first_inv d (calls w) ?pool"
      unfolding first_inv_def start_threads_def d_def
      using first_put_call_fn [OF it, of fn bucket chunk_size] by auto
    then have "first_inv d (calls w) (run_threads m schedule ?pool)"
      by (intro run_threads_invariant [where I = "first_inv d (calls w)"])
         (rule thread_step_first_inv)
    then obtain evs' where e': "calls w1 = calls w @ evs'"
      and f: "(\<exists>ev \<in> set evs'. is_put d ev) \<or> (\<forall>t \<in> set ts. \<exists>p. t = Alive p \<and> first_put p d)"
      using r by (auto simp: first_inv_def)
    have "length ts = nat threads" using r by (rule run_threads_start)
    with th obtain t where t: "t \<in> set ts" by (cases ts) auto
    then have "\<not> alive t" using run_threads_start(3) [OF r] by blast
    then have "\<nexists>p. t = Alive p" by (auto simp: alive_def)
    with t have "\<not> (\<forall>t \<in> set ts. \<exists>p. t = Alive p \<and> first_put p d)"
      by blast
    with f have "\<exists>ev \<in> set evs'. is_put d ev" by blast
    moreover have "evs' = evs" using e e' by simp
    ultimately show ?thesis by simp
  qed
  with c e p show ?thesis by auto
qed

lemma run_tests_world:
  fixes a :: args
  defines "B \<equiv> {replicate (nat (args_chunk_size a)) (0::8 word),
                 replicate (nat (args_chunk_size a + 1)) 0}"
    and "d \<equiv> replicate (nat (args_chunk_size a)) (0::8 word)"
  assumes "args_iterations a \<noteq> 0" and "0 < args_threads a"
  shows "\<exists>results w' evs.
           run_tests m a schedules fns w = (Inr results, w') \<and>
           map fst results = map fn_name fns \<and>
           stdout w' = stdout w \<and>
           calls w' = calls w @ evs \<and>
           (\<forall>ev \<in> set evs. put_within B ev) \<and>
           (0 < args_iterations a \<and> fns \<noteq> [] \<longrightarrow> (\<exists>ev \<in> set evs. is_put d ev))"
proof (induction fns arbitrary: w)
  case Nil
  show ?case by simp
next
  case (Cons fn fns)
  let ?t = "run_test m (args_bucket a) fn (args_iterations a) (args_threads a)
              (args_chunk_size a) (schedules fn) w"
  obtain ts errors w1 where
    "run_threads m (schedules fn) (start_threads fn (args_bucket a) (args_iterations a)
       (args_threads a) (args_chunk_size a) w) = (ts, errors, w1)"
    by (cases "run_threads m (schedules fn) (start_threads fn (args_bucket a) (args_iterations a)
       (args_threads a) (args_chunk_size a) w)")
  from run_test_completes [OF assms(3,4) this]
  obtain c w2 where t: "?t = (Inr c, w2)" by blast
  have o: "stdout w2 = stdout w"
    using run_test_world [of m "args_bucket a" fn "args_iterations a" "args_threads a"
      "args_chunk_size a" "schedules fn" w] t by simp
  from run_test_puts [of m "args_bucket a" fn "args_iterations a" "args_threads a"
      "args_chunk_size a" "schedules fn" w] t
  obtain evs1 where e1: "calls w2 = calls w @ evs1" and p1: "\<forall>ev \<in> set evs1. put_within B ev"
    and f1: "0 < args_iterations a \<longrightarrow> (\<exists>ev \<in> set evs1. is_put d ev)"
    using assms(4) unfolding B_def d_def by auto
  from Cons.IH [of w2] obtain results w' evs2 where
    r: "run_tests m a schedules fns w2 = (Inr results, w')"
    and n: "map fst results = map fn_name fns" and o2: "stdout w' = stdout w2"
    and e2: "calls w' = calls w2 @ evs2" and p2: "\<forall>ev \<in> set evs2. put_within B ev"
    by blast
  have "run_tests m a schedules (fn # fns) w = (Inr ((fn_name fn, c) # results), w')"
    using t r by simp
  moreover have "map fst ((fn_name fn, c) # results) = map fn_name (fn # fns)"
    using n by simp
  moreover have "stdout w' = stdout w" using o o2 by simp
  moreover have "calls w' = calls w @ (evs1 @ evs2)" using e1 e2 by simp
  moreover have "\<forall>ev \<in> set (evs1 @ evs2). put_within B ev" using p1 p2 by auto
  moreover have "0 < args_iterations a \<longrightarrow> (\<exists>ev \<in> set (evs1 @ evs2). is_put d ev)"
    using f1 by auto
  ultimately show ?case by blast
qed

lemma main_campaign:
  fixes a :: args
  defines "B \<equiv> {replicate (nat (args_chunk_size a)) (0::8 word),
                 replicate (nat (args_chunk_size a + 1)) 0}"
    and "d \<equiv> replicate (nat (args_chunk_size a)) (0::8 word)"
  assumes "args_chunk_size a \<le> max_chunk_size" and "\<not> args_clean a"
    and "args_iterations a \<noteq> 0" and "0 < args_threads a"
  shows "\<exists>results w' evs.
           main m a schedules w = (Inr (), w') \<and>
           map fst results = map fn_name campaign \<and>
           stdout w' = stdout w @ [credentials_line] @ summary_header @ summary_rows a results \<and>
           calls w' = calls w @ evs \<and>
           (\<forall>ev \<in> set evs. put_within B ev) \<and>
           (0 < args_iterations a \<longrightarrow> (\<exists>ev \<in> set evs. is_put d ev))"
proof -
  let ?w2 = "print_out [credentials_line] w"
  from run_tests_world [OF assms(5,6), of m schedules campaign ?w2]
  obtain results w3 evs where
    r: "run_tests m a schedules campaign ?w2 = (Inr results, w3)"
    and n: "map fst results = map fn_name campaign" and o: "stdout w3 = stdout ?w2"
    and e: "calls w3 = calls ?w2 @ evs" and p: "\<forall>ev \<in> set evs. put_within B ev"
    and f: "0 < args_iterations a \<and> campaign \<noteq> [] \<longrightarrow> (\<exists>ev \<in> set evs. is_put d ev)"
    unfolding B_def d_def by blast
  let ?w' = "print_out (summary_rows a results) (print_out summary_header w3)"
  have nz: "args_iterations a * args_threads a \<noteq> 0" using assms(5,6) by simp
  have "main m a schedules w = print_summary a results (print_out summary_header w3)"
    using assms(3,4) r by (simp add: main_def credentials_line_def)
  then have "main m a schedules w = (Inr (), ?w')"
    using print_summary_rows [OF nz] by simp
  moreover have "stdout ?w' = stdout w @ [credentials_line] @ summary_header @ summary_rows a results"
    using o by (simp add: print_out_def)
  moreover have "calls ?w' = calls w @ evs"
    using e by (simp add: print_out_def)
  moreover have "0 < args_iterations a \<longrightarrow> (\<exists>ev \<in> set evs. is_put d ev)"
    using f by (simp add: campaign_def)
  ultimately show ?thesis using n p by blast
qed

section \<open>What main leaves untouched\<close>










section \<open>The claims\<close>

text \<open>
  C7, as stated, fails: the iteration count is any integer the command line gives, and
  nothing checks it. With \<^verbatim>\<open>--iterations -1 --threads 1\<close> every loop is empty, the
  one worker appends 0, the divisor \<open>-1 * 1\<close> is not zero, and \<^verbatim>\<open>run_test\<close> returns
  0 violations for \<open>-1\<close> attempts: \<open>violations \<le> attempted\<close> does not hold.
\<close>

theorem violations_bounded_counterexample:
  "fst (run_test (consistent_gateway unary_keys) ''b'' Read_after_delete (- 1) 1 1 []
          (world0 [])) = Inr 0 \<and>
   log_rows (snd (run_test (consistent_gateway unary_keys) ''b'' Read_after_delete (- 1) 1 1 []
          (world0 []))) = [(''read_after_delete'', - 1, 0, 0)] \<and>
   \<not> ((0::int) \<le> 0 \<and> (0::int) \<le> - 1 * 1)"
proof -
  let ?p = "run_threads (consistent_gateway unary_keys) []
              (start_threads Read_after_delete ''b'' (- 1) 1 1 (world0 []))"
  have ts: "length (fst ?p) = 1" by code_simp
  have es: "fst (snd ?p) = [0]" by code_simp
  have lg: "log_rows (snd (snd ?p)) = []" by code_simp
  obtain ts errors w where p: "?p = (ts, errors, w)" by (cases ?p)
  with ts es lg have "length ts = 1" "errors = [0]" "log_rows w = []" by simp_all
  then show ?thesis
    by (auto simp: run_test_def p percentage_def)
qed

text \<open>
  C7, amended: for a positive iteration count, and for every probe, every gateway (a
  machine is any sequence of answers, failures included) and every schedule of the
  threads, the violation count that \<^verbatim>\<open>run_test\<close> returns lies between 0 and
  \<open>iterations * threads\<close>, the number of attempts it logs. The worker count is
  positive whenever \<^verbatim>\<open>run_test\<close> returns.
\<close>

theorem violations_bounded:
  assumes "0 < iterations"
    and "run_test m bucket fn iterations threads chunk_size schedule w = (Inr violations, w')"
  shows "0 \<le> violations \<and> violations \<le> iterations * threads"
proof -
  from assms(2) obtain ts errors w1 where
    r: "run_threads m schedule (start_threads fn bucket iterations threads chunk_size w) =
          (ts, errors, w1)"
    and v: "violations = sum_list errors" and t: "0 < threads"
    by (rule run_test_returns)
  have "length errors \<le> length ts"
    using run_threads_start(2) [OF r] finished_le [of ts] by simp
  then have n: "int (length errors) \<le> threads"
    using run_threads_start(1) [OF r] t by simp
  have "\<And>v. v \<in> set errors \<Longrightarrow> 0 \<le> v \<and> v \<le> iterations"
    using run_threads_start(4) [OF r] assms(1) by simp
  then have "0 \<le> sum_list errors \<and> sum_list errors \<le> int (length errors) * iterations"
    by (rule sum_list_bounds)
  moreover have "int (length errors) * iterations \<le> threads * iterations"
    using n assms(1) by (simp add: mult_right_mono)
  ultimately show ?thesis using v by (simp add: mult.commute)
qed

theorem violations_bounded_witness:
  "(0::int) < 3 \<and>
   fst (run_test (stale_gateway unary_keys) ''b'' Read_after_delete 3 2 1 [0, 1, 1, 0, 0, 1, 1, 1, 0]
          (world0 [])) = Inr 6 \<and>
   (0::int) \<le> 6 \<and> (6::int) \<le> 3 * 2"
proof -
  let ?r = "run_test (stale_gateway unary_keys) ''b'' Read_after_delete 3 2 1
              [0, 1, 1, 0, 0, 1, 1, 1, 0] (world0 [])"
  have f: "fst ?r = Inr 6" by code_simp
  then have "?r = (Inr 6, snd ?r)" by (simp add: prod_eq_iff)
  from violations_bounded [OF _ this] f show ?thesis by simp
qed



text \<open>
  C9. A chunk size above the ceiling of 5 GiB (\<open>5 * 1024 * 1024 * 1024 = 5368709120\<close>
  bytes) is not rejected. For every such configuration \<^verbatim>\<open>main\<close> prints its two
  lines and goes on exactly as for a chunk size of 5368709120. In campaign mode with
  a positive iteration and worker count this means, for every gateway and every
  schedule: \<^verbatim>\<open>main\<close> ends without an exception and prints the summary with one row
  for each of the five tests; every body it puts has 5368709120 bytes, or 5368709121
  for the second put of \<^verbatim>\<open>read_after_overwrite\<close> (\<^verbatim>\<open>chunk_size + 1\<close>); and a
  body of exactly 5368709120 bytes is put.
\<close>

theorem chunk_size_clamped:
  assumes "max_chunk_size < args_chunk_size a"
  shows "main m a schedules w =
           main m (a\<lparr>args_chunk_size := 5 * 1024 * 1024 * 1024\<rparr>) schedules
             (print_out [Line '' ** Error ** : chunk-size exceeds the 5GB limit.'',
                         Line ''Setting chunk-size to 5GB.''] w) \<and>
         (\<not> args_clean a \<and> 0 < args_iterations a \<and> 0 < args_threads a \<longrightarrow>
            (\<exists>results w' evs.
               main m a schedules w = (Inr (), w') \<and>
               map fst results = map fn_name campaign \<and>
               stdout w' =
                 stdout w @
                 [Line '' ** Error ** : chunk-size exceeds the 5GB limit.'',
                  Line ''Setting chunk-size to 5GB.'', credentials_line] @
                 summary_header @ summary_rows a results \<and>
               calls w' = calls w @ evs \<and>
               (\<forall>b k d r. Put_call b k d r \<in> set evs \<longrightarrow>
                  d = replicate 5368709120 0 \<or> d = replicate 5368709121 0) \<and>
               (\<exists>b k r. Put_call b k (replicate 5368709120 0) r \<in> set evs)))"
proof
  let ?a = "a\<lparr>args_chunk_size := 5 * 1024 * 1024 * 1024\<rparr>"
  let ?w = "print_out [Line '' ** Error ** : chunk-size exceeds the 5GB limit.'',
                       Line ''Setting chunk-size to 5GB.''] w"
  show eq: "main m a schedules w = main m ?a schedules ?w"
    using assms by (simp add: main_def max_chunk_size_def)
  show "\<not> args_clean a \<and> 0 < args_iterations a \<and> 0 < args_threads a \<longrightarrow>
            (\<exists>results w' evs.
               main m a schedules w = (Inr (), w') \<and>
               map fst results = map fn_name campaign \<and>
               stdout w' =
                 stdout w @
                 [Line '' ** Error ** : chunk-size exceeds the 5GB limit.'',
                  Line ''Setting chunk-size to 5GB.'', credentials_line] @
                 summary_header @ summary_rows a results \<and>
               calls w' = calls w @ evs \<and>
               (\<forall>b k d r. Put_call b k d r \<in> set evs \<longrightarrow>
                  d = replicate 5368709120 0 \<or> d = replicate 5368709121 0) \<and>
               (\<exists>b k r. Put_call b k (replicate 5368709120 0) r \<in> set evs))"
  proof
    assume h: "\<not> args_clean a \<and> 0 < args_iterations a \<and> 0 < args_threads a"
    have "args_chunk_size ?a \<le> max_chunk_size" by (simp add: max_chunk_size_def)
    moreover have "\<not> args_clean ?a" using h by simp
    moreover have "args_iterations ?a \<noteq> 0" using h by simp
    moreover have "0 < args_threads ?a" using h by simp
    ultimately obtain results w' evs where
      r: "main m ?a schedules ?w = (Inr (), w')"
      and n: "map fst results = map fn_name campaign"
      and o: "stdout w' = stdout ?w @ [credentials_line] @ summary_header @ summary_rows ?a results"
      and c: "calls w' = calls ?w @ evs"
      and p: "\<forall>ev \<in> set evs. put_within
                {replicate (nat (args_chunk_size ?a)) 0, replicate (nat (args_chunk_size ?a + 1)) 0} ev"
      and f: "0 < args_iterations ?a \<longrightarrow>
                (\<exists>ev \<in> set evs. is_put (replicate (nat (args_chunk_size ?a)) 0) ev)"
      using main_campaign [of ?a m schedules ?w] by blast
    have "main m a schedules w = (Inr (), w')" using eq r by simp
    moreover have "stdout w' =
        stdout w @
        [Line '' ** Error ** : chunk-size exceeds the 5GB limit.'',
         Line ''Setting chunk-size to 5GB.'', credentials_line] @
        summary_header @ summary_rows a results"
      using o by (simp add: print_out_def summary_rows_def)
    moreover have "calls w' = calls w @ evs" using c by (simp add: print_out_def)
    moreover have "\<forall>b k d r. Put_call b k d r \<in> set evs \<longrightarrow>
        d = replicate 5368709120 0 \<or> d = replicate 5368709121 0"
    proof (intro allI impI)
      fix b k d r
      assume "Put_call b k d r \<in> set evs"
      with p have "put_within
          {replicate (nat (args_chunk_size ?a)) 0, replicate (nat (args_chunk_size ?a + 1)) 0}
          (Put_call b k d r)"
        by blast
      then show "d = replicate 5368709120 0 \<or> d = replicate 5368709121 0"
        by (simp add: put_within_def)
    qed
    moreover have "\<exists>b k r. Put_call b k (replicate 5368709120 0) r \<in> set evs"
    proof -
      from f h obtain ev where e: "ev \<in> set evs"
        and i: "is_put (replicate (nat (args_chunk_size ?a)) 0) ev"
        by auto
      from i obtain b k r where "ev = Put_call b k (replicate 5368709120 0) r"
        by (cases ev) (simp_all add: is_put_def)
      with e show ?thesis by blast
    qed
    ultimately show "\<exists>results w' evs.
               main m a schedules w = (Inr (), w') \<and>
               map fst results = map fn_name campaign \<and>
               stdout w' =
                 stdout w @
                 [Line '' ** Error ** : chunk-size exceeds the 5GB limit.'',
                  Line ''Setting chunk-size to 5GB.'', credentials_line] @
                 summary_header @ summary_rows a results \<and>
               calls w' = calls w @ evs \<and>
               (\<forall>b k d r. Put_call b k d r \<in> set evs \<longrightarrow>
                  d = replicate 5368709120 0 \<or> d = replicate 5368709121 0) \<and>
               (\<exists>b k r. Put_call b k (replicate 5368709120 0) r \<in> set evs)"
      using n by blast
  qed
qed

theorem chunk_size_clamped_witness:
  "max_chunk_size < args_chunk_size clamp_args \<and>
   \<not> args_clean clamp_args \<and> 0 < args_iterations clamp_args \<and> 0 < args_threads clamp_args \<and>
   main (consistent_gateway unary_keys) clamp_args (\<lambda>fn. []) (world0 []) =
     main (consistent_gateway unary_keys)
       (clamp_args\<lparr>args_chunk_size := 5 * 1024 * 1024 * 1024\<rparr>) (\<lambda>fn. [])
       (print_out [Line '' ** Error ** : chunk-size exceeds the 5GB limit.'',
                   Line ''Setting chunk-size to 5GB.''] (world0 [])) \<and>
   (\<exists>results w' evs.
      main (consistent_gateway unary_keys) clamp_args (\<lambda>fn. []) (world0 []) = (Inr (), w') \<and>
      map fst results = map fn_name campaign \<and>
      stdout w' =
        stdout (world0 [] :: store world) @
        [Line '' ** Error ** : chunk-size exceeds the 5GB limit.'',
         Line ''Setting chunk-size to 5GB.'', credentials_line] @
        summary_header @ summary_rows clamp_args results \<and>
      calls w' = calls (world0 [] :: store world) @ evs \<and>
      (\<forall>b k d r. Put_call b k d r \<in> set evs \<longrightarrow>
         d = replicate 5368709120 0 \<or> d = replicate 5368709121 0) \<and>
      (\<exists>b k r. Put_call b k (replicate 5368709120 0) r \<in> set evs))"
proof -
  have h: "max_chunk_size < args_chunk_size clamp_args"
    by (simp add: max_chunk_size_def clamp_args_def)
  have c1: "\<not> args_clean clamp_args" and c2: "0 < args_iterations clamp_args"
    and c3: "0 < args_threads clamp_args"
    by (simp_all add: clamp_args_def)
  note t = chunk_size_clamped [OF h, of "consistent_gateway unary_keys" "\<lambda>fn. []" "world0 []"]
  note e = t [THEN conjunct1]
  note x = t [THEN conjunct2, THEN mp, OF conjI [OF c1 conjI [OF c2 c3]]]
  show ?thesis
    by (rule conjI [OF h conjI [OF c1 conjI [OF c2 conjI [OF c3 conjI [OF e x]]]]])
qed




end
